theory Spec2Isabelle
  imports Main
begin

section \<open>The unified-diff parser of OpenCppCoverage (FileFilter::UnifiedDiffParser)\<close>

text \<open>
  The embedding follows \<^verbatim>\<open>UnifiedDiffParser.cpp\<close> function by function. Wide strings are
  \<open>string\<close>, with the characters of HOL (8 bits) for \<^verbatim>\<open>wchar_t\<close>; the input stream is a record
  of the lines that \<^verbatim>\<open>std::getline\<close> will hand out and of the state bits that decide what a
  failed read does; local variables that a loop carries are arguments of the loop's
  function; exceptions are values of \<open>error\<close> on the left of a sum.
\<close>

subsection \<open>Strings\<close>

text \<open>\<^verbatim>\<open>boost::algorithm::starts_with(input, test)\<close>.\<close>

definition starts_with :: "string \<Rightarrow> string \<Rightarrow> bool" where
  "starts_with input test \<longleftrightarrow> take (length test) input = test"

definition tab :: char where
  "tab = CHR 0x09"

definition backslash :: char where
  "backslash = CHR 0x5C"

definition GitTargetPrefix :: string where
  "GitTargetPrefix = ''b/''"

definition DevNull :: string where
  "DevNull = ''/dev/null''"

definition FromFilePrefix :: string where
  "FromFilePrefix = ''--- ''"

definition ToFilePrefix :: string where
  "ToFilePrefix = ''+++ ''"

subsection \<open>Errors\<close>

text \<open>
  The message constants of \<^verbatim>\<open>UnifiedDiffParserException\<close> are the constructors of
  \<open>error_kind\<close>. \<^verbatim>\<open>ThrowError\<close> formats ``Error line N: text'' followed by the message; the
  exception value keeps the three parts apart. \<open>StdOutOfRange\<close> is the \<^verbatim>\<open>std::out_of_range\<close>
  that \<^verbatim>\<open>std::stoi\<close> and \<^verbatim>\<open>substr\<close> raise, \<open>FileFilterException\<close> the \<^verbatim>\<open>THROW\<close> of
  \<^verbatim>\<open>UpdateFilePathIfGitDetected\<close>.
\<close>

datatype error_kind =
    ErrorExpectFromFilePrefix
  | ErrorCannotReadLine
  | ErrorNoFilenameBeforeHunks
  | ErrorInvalidHunks
  | ErrorContextHunks

datatype error =
    UnifiedDiffParserException int string error_kind
  | StdOutOfRange
  | FileFilterException

subsection \<open>File (diff side)\<close>

text \<open>
  Modelled from the spec: the class \<^verbatim>\<open>File\<close> (\<^verbatim>\<open>File.hpp\<close>) is not part of the sources at
  hand. The spec gives it as ``a path plus an ordered set of ascending line numbers'', so
  \<open>selectedLines\<close> is an ascending list without duplicates and \<open>AddSelectedLines\<close> inserts
  each number at its place.
\<close>

record File =
  path :: string
  selectedLines :: "int list"

definition NewFile :: "string \<Rightarrow> File" where
  "NewFile p = \<lparr>path = p, selectedLines = []\<rparr>"

definition set_insert :: "int \<Rightarrow> int list \<Rightarrow> int list" where
  "set_insert x xs = (if x \<in> set xs then xs else insort x xs)"

definition AddSelectedLines :: "File \<Rightarrow> int list \<Rightarrow> File" where
  "AddSelectedLines f ls = f\<lparr>selectedLines := fold set_insert ls (selectedLines f)\<rparr>"

definition SetPath :: "File \<Rightarrow> string \<Rightarrow> File" where
  "SetPath f p = f\<lparr>path := p\<rparr>"

subsection \<open>Stream\<close>

text \<open>
  The \<^verbatim>\<open>std::wistream\<close> under the parser, as far as \<^verbatim>\<open>std::getline\<close> sees it: the lines not yet
  read, whether the text ends in the middle of its last line (no newline after it), and
  the stream's end-of-file bit. \<^verbatim>\<open>std::getline\<close> first builds a sentry: on a stream whose
  end-of-file bit is set the sentry fails, the fail bit is set and the string is left
  untouched. Otherwise the string is erased and characters are extracted up to a newline
  or the end of the text; reaching the end sets the end-of-file bit, and extracting
  nothing sets the fail bit as well. The boolean returned is the state of the stream
  afterwards (\<open>False\<close>: the read failed); no function of the parser reads again from a
  stream that failed.
\<close>

record wistream =
  pending :: "string list"
  open_ended :: bool
  eofbit :: bool

definition wistream_of :: "string list \<Rightarrow> bool \<Rightarrow> wistream" where
  "wistream_of ls final_newline =
     \<lparr>pending = ls, open_ended = (ls \<noteq> [] \<and> \<not> final_newline), eofbit = False\<rparr>"

definition std_getline :: "wistream \<Rightarrow> string \<Rightarrow> bool \<times> string \<times> wistream" where
  "std_getline is str =
     (if eofbit is then (False, str, is)
      else (case pending is of
              [] \<Rightarrow> (False, [], is\<lparr>eofbit := True\<rparr>)
            | l # ls \<Rightarrow> (True, l, is\<lparr>pending := ls, eofbit := (ls = [] \<and> open_ended is)\<rparr>)))"

text \<open>
  \<^verbatim>\<open>GetLine\<close> counts and stores unconditionally: \<^verbatim>\<open>currentLine_\<close> is incremented and
  \<^verbatim>\<open>lastLineRead_\<close> overwritten with the caller's string also when the read failed. The
  constructor's \<^verbatim>\<open>lastLineRead_{ 0 }\<close> is the one-character string holding the null
  character. \<^verbatim>\<open>currentLine_\<close> is an \<^verbatim>\<open>int\<close>; it is kept unbounded here, which is exact for
  inputs of fewer than \<open>2^31\<close> lines.
\<close>

record Stream =
  istr :: wistream
  currentLine :: int
  lastLineRead :: string

definition NewStream :: "wistream \<Rightarrow> Stream" where
  "NewStream is = \<lparr>istr = is, currentLine = 0, lastLineRead = [CHR 0x00]\<rparr>"

definition GetLine :: "Stream \<Rightarrow> string \<Rightarrow> bool \<times> string \<times> Stream" where
  "GetLine stream line =
     (case std_getline (istr stream) line of
        (ok, line', is') \<Rightarrow>
          (ok, line', \<lparr>istr = is', currentLine = currentLine stream + 1, lastLineRead = line'\<rparr>))"

definition ThrowError :: "Stream \<Rightarrow> error_kind \<Rightarrow> error + 'a" where
  "ThrowError stream message =
     Inl (UnifiedDiffParserException (currentLine stream) (lastLineRead stream) message)"

subsection \<open>Hunk headers\<close>

text \<open>
  \<^verbatim>\<open>std::stoi\<close> on a group of decimal digits: the value, or \<^verbatim>\<open>std::out_of_range\<close> when it
  does not fit an \<^verbatim>\<open>int\<close>.
\<close>

definition INT_MAX :: int where
  "INT_MAX = 2147483647"

definition is_digit :: "char \<Rightarrow> bool" where
  "is_digit c \<longleftrightarrow> c \<in> set ''0123456789''"

definition is_space :: "char \<Rightarrow> bool" where
  "is_space c \<longleftrightarrow> c \<in> set [CHR 0x20, CHR 0x09, CHR 0x0A, CHR 0x0B, CHR 0x0C, CHR 0x0D]"

definition digit_val :: "char \<Rightarrow> int" where
  "digit_val c = of_char c - 48"

definition decimal :: "string \<Rightarrow> int" where
  "decimal ds = foldl (\<lambda>acc c. 10 * acc + digit_val c) 0 ds"

definition stoi :: "string \<Rightarrow> error + int" where
  "stoi ds = (if decimal ds \<le> INT_MAX then Inr (decimal ds) else Inl StdOutOfRange)"

text \<open>
  The regular expression \<^verbatim>\<open>^@@\s*-(\d+)(?:,(\d+))?\s*\+(\d+)(?:,(\d+))?\s*@@\<close>, searched in
  the header line; \<^verbatim>\<open>^\<close> ties the match to the start of the line, \<^verbatim>\<open>\s\<close> and \<^verbatim>\<open>\d\<close> are the
  ASCII white space and digits. Every choice of the pattern is decided by the next
  character (a digit run is followed by a non-digit, white space by a sign), so the
  leftmost greedy scan below finds the match if there is one. \<open>match_range\<close> is the
  sub-pattern \<^verbatim>\<open>(\d+)(?:,(\d+))?\<close>: the mandatory group, the optional group, the rest of the
  line. The test \<^verbatim>\<open>match.size() == 5 && match[1].matched && match[3].matched\<close> holds of
  every match of this pattern.
\<close>

definition match_range :: "string \<Rightarrow> (string \<times> string option \<times> string) option" where
  "match_range s =
     (let d1 = takeWhile is_digit s; r1 = dropWhile is_digit s in
      if d1 = [] then None
      else (case r1 of
              [] \<Rightarrow> Some (d1, None, r1)
            | c # r2 \<Rightarrow>
                if c = CHR '','' \<and> takeWhile is_digit r2 \<noteq> []
                then Some (d1, Some (takeWhile is_digit r2), dropWhile is_digit r2)
                else Some (d1, None, r1)))"

definition regex_search_hunk ::
  "string \<Rightarrow> (string \<times> string option \<times> string \<times> string option) option" where
  "regex_search_hunk line =
     (if \<not> starts_with line ''@@'' then None
      else (case dropWhile is_space (drop 2 line) of
              [] \<Rightarrow> None
            | c # r \<Rightarrow>
                if c \<noteq> CHR ''-'' then None
                else (case match_range r of
                        None \<Rightarrow> None
                      | Some (m1, m2, r') \<Rightarrow>
                          (case dropWhile is_space r' of
                             [] \<Rightarrow> None
                           | c' # r'' \<Rightarrow>
                               if c' \<noteq> CHR ''+'' then None
                               else (case match_range r'' of
                                       None \<Rightarrow> None
                                     | Some (m3, m4, r''') \<Rightarrow>
                                         if starts_with (dropWhile is_space r''') ''@@''
                                         then Some (m1, m2, m3, m4)
                                         else None)))))"

record HunksDifferences =
  startFrom :: int
  countFrom :: int
  startTo :: int
  countTo :: int

definition stoi_or_1 :: "string option \<Rightarrow> error + int" where
  "stoi_or_1 m = (case m of None \<Rightarrow> Inr 1 | Some ds \<Rightarrow> stoi ds)"

definition ExtractHunksDifferences :: "Stream \<Rightarrow> string \<Rightarrow> error + HunksDifferences" where
  "ExtractHunksDifferences stream hunksDifferencesLine =
     (case regex_search_hunk hunksDifferencesLine of
        None \<Rightarrow> ThrowError stream ErrorInvalidHunks
      | Some (m1, m2, m3, m4) \<Rightarrow>
          (case stoi m1 of Inl e \<Rightarrow> Inl e | Inr sf \<Rightarrow>
          (case stoi_or_1 m2 of Inl e \<Rightarrow> Inl e | Inr cf \<Rightarrow>
          (case stoi m3 of Inl e \<Rightarrow> Inl e | Inr st \<Rightarrow>
          (case stoi_or_1 m4 of Inl e \<Rightarrow> Inl e | Inr ct \<Rightarrow>
             Inr \<lparr>startFrom = sf, countFrom = cf, startTo = st, countTo = ct\<rparr>)))))"

subsection \<open>Hunk contents\<close>

text \<open>
  \<^verbatim>\<open>endLine\<close> is the \<^verbatim>\<open>int\<close> sum of two values up to \<open>INT_MAX\<close>; \<open>int_add\<close> writes the
  two's-complement wrap-around out.
\<close>

definition int_add :: "int \<Rightarrow> int \<Rightarrow> int" where
  "int_add a b = (a + b + 2147483648) mod 4294967296 - 2147483648"

text \<open>
  The loop \<^verbatim>\<open>while (currentLine < endLine && stream.GetLine(lineStr))\<close>: a line is read
  only when the counter is below \<open>endLine\<close>, into the variable \<^verbatim>\<open>lineStr\<close> that the loop
  carries along. The result is the counter, the recorded lines and the stream when the
  loop is left.
\<close>

function ExtractUpdatedLines_loop ::
  "Stream \<Rightarrow> string \<Rightarrow> int \<Rightarrow> int \<Rightarrow> int list \<Rightarrow> int \<times> int list \<times> Stream" where
  "ExtractUpdatedLines_loop stream lineStr cur endLine updatedLines =
     (if cur < endLine then
        (case GetLine stream lineStr of
           (False, lineStr', stream') \<Rightarrow> (cur, updatedLines, stream')
         | (True, lineStr', stream') \<Rightarrow>
             if \<not> starts_with lineStr' ''-'' \<and> \<not> starts_with lineStr' [backslash]
             then ExtractUpdatedLines_loop stream' lineStr' (cur + 1) endLine
                    (if starts_with lineStr' ''+'' then updatedLines @ [cur] else updatedLines)
             else ExtractUpdatedLines_loop stream' lineStr' cur endLine updatedLines)
      else (cur, updatedLines, stream))"
  by pat_completeness auto
termination
  by (relation "measure (\<lambda>(stream, lineStr, cur, endLine, updatedLines).
        length (pending (istr stream)))")
     (auto simp: GetLine_def std_getline_def split: list.splits if_splits)

declare ExtractUpdatedLines_loop.simps [simp del]

definition ExtractUpdatedLines :: "Stream \<Rightarrow> string \<Rightarrow> error + (int list \<times> Stream)" where
  "ExtractUpdatedLines stream hunksDifferencesLine =
     (case ExtractHunksDifferences stream hunksDifferencesLine of
        Inl e \<Rightarrow> Inl e
      | Inr hunksDifferences \<Rightarrow>
          (let endLine = int_add (startTo hunksDifferences) (countTo hunksDifferences) in
           case ExtractUpdatedLines_loop stream [] (startTo hunksDifferences) endLine [] of
             (cur, updatedLines, stream') \<Rightarrow>
               if cur \<noteq> endLine then ThrowError stream' ErrorContextHunks
               else Inr (updatedLines, stream')))"

definition FillUpdatedLines ::
  "string \<Rightarrow> File list \<Rightarrow> Stream \<Rightarrow> error + (File list \<times> Stream)" where
  "FillUpdatedLines line files stream =
     (if files = [] then ThrowError stream ErrorNoFilenameBeforeHunks
      else (case ExtractUpdatedLines stream line of
              Inl e \<Rightarrow> Inl e
            | Inr (updatedLines, stream') \<Rightarrow>
                Inr (butlast files @ [AddSelectedLines (last files) updatedLines], stream')))"

subsection \<open>File headers\<close>

text \<open>
  \<^verbatim>\<open>line.find('\t')\<close> looks at the whole line; \<^verbatim>\<open>substr\<close> raises \<^verbatim>\<open>std::out_of_range\<close> when
  the line is shorter than the prefix, and a tab before \<open>startIndex\<close> makes the unsigned
  length wrap to a value beyond the end of the line, so the rest of the line is taken.
\<close>

definition ExtractTargetFile :: "string \<Rightarrow> error + string" where
  "ExtractTargetFile line =
     (let startIndex = length ToFilePrefix;
          endIndex = length (takeWhile (\<lambda>c. c \<noteq> tab) line)
      in if length line < startIndex then Inl StdOutOfRange
         else if tab \<in> set line \<and> startIndex \<le> endIndex
              then Inr (take (endIndex - startIndex) (drop startIndex line))
              else Inr (drop startIndex line))"

subsection \<open>Post-processing\<close>

definition IsGitDetected :: "File list \<Rightarrow> string list \<Rightarrow> bool \<Rightarrow> bool" where
  "IsGitDetected files sourceFileLines foundGitHeader =
     (if \<not> foundGitHeader then False
      else (let isGitTarget = list_all (\<lambda>file. starts_with (path file) GitTargetPrefix) files;
                isGitSource = list_all (\<lambda>line. starts_with line (FromFilePrefix @ ''a/''))
                                sourceFileLines
            in isGitTarget \<and> isGitSource))"

fun strip_git_prefix :: "File list \<Rightarrow> error + File list" where
  "strip_git_prefix [] = Inr []"
| "strip_git_prefix (file # files) =
     (if \<not> starts_with (path file) GitTargetPrefix then Inl FileFilterException
      else (case strip_git_prefix files of
              Inl e \<Rightarrow> Inl e
            | Inr files' \<Rightarrow>
                Inr (SetPath file (drop (length GitTargetPrefix) (path file)) # files')))"

definition UpdateFilePathIfGitDetected ::
  "File list \<Rightarrow> string list \<Rightarrow> bool \<Rightarrow> error + File list" where
  "UpdateFilePathIfGitDetected files sourceFileLines foundGitHeader =
     (if IsGitDetected files sourceFileLines foundGitHeader then strip_git_prefix files
      else Inr files)"

definition RemoveDevNull :: "File list \<Rightarrow> string list \<Rightarrow> File list \<times> string list" where
  "RemoveDevNull files sourceFileLines =
     (filter (\<lambda>file. path file \<noteq> DevNull) files,
      filter (\<lambda>line. \<not> starts_with line (FromFilePrefix @ DevNull)) sourceFileLines)"

subsection \<open>Parse\<close>

lemma GetLine_True_length:
  "GetLine s v = (True, l, s') \<Longrightarrow> length (pending (istr s')) < length (pending (istr s))"
  by (auto simp: GetLine_def std_getline_def split: list.splits if_splits)

lemma GetLine_False_length:
  "GetLine s v = (False, l, s') \<Longrightarrow> length (pending (istr s')) = length (pending (istr s))"
  by (auto simp: GetLine_def std_getline_def split: list.splits if_splits)

lemma ExtractUpdatedLines_loop_length:
  "ExtractUpdatedLines_loop s v c e u = (c', u', s') \<Longrightarrow>
   length (pending (istr s')) \<le> length (pending (istr s))"
proof (induction "length (pending (istr s))" arbitrary: s v c u rule: less_induct)
  case less
  show ?case
  proof (cases "c < e")
    case False
    with less.prems show ?thesis by (simp add: ExtractUpdatedLines_loop.simps [of s])
  next
    case True
    obtain ok l st where g: "GetLine s v = (ok, l, st)"
      by (cases "GetLine s v")
    show ?thesis
    proof (cases ok)
      case False
      with True g less.prems show ?thesis
        by (auto simp: ExtractUpdatedLines_loop.simps [of s] dest: GetLine_False_length)
    next
      case ok: True
      have lt: "length (pending (istr st)) < length (pending (istr s))"
        using g ok by (auto dest: GetLine_True_length)
      from True g ok less.prems obtain c1 u1 where
        "ExtractUpdatedLines_loop st l c1 e u1 = (c', u', s')"
        by (auto simp: ExtractUpdatedLines_loop.simps [of s] split: if_splits)
      from less.hyps [OF lt this] lt show ?thesis by simp
    qed
  qed
qed

lemma ExtractUpdatedLines_length:
  "ExtractUpdatedLines s line = Inr (u, s') \<Longrightarrow>
   length (pending (istr s')) \<le> length (pending (istr s))"
  by (auto simp: ExtractUpdatedLines_def Let_def ThrowError_def
           split: sum.splits prod.splits if_splits dest: ExtractUpdatedLines_loop_length)

lemma FillUpdatedLines_length:
  "FillUpdatedLines line files s = Inr (files', s') \<Longrightarrow>
   length (pending (istr s')) \<le> length (pending (istr s))"
  by (auto simp: FillUpdatedLines_def ThrowError_def
           split: sum.splits prod.splits if_splits dest: ExtractUpdatedLines_length)

text \<open>
  The loop \<^verbatim>\<open>while (stream.GetLine(line))\<close> of \<^verbatim>\<open>Parse\<close>, with the local variables \<^verbatim>\<open>line\<close>,
  \<^verbatim>\<open>files\<close>, \<^verbatim>\<open>sourceFileLines\<close> and \<^verbatim>\<open>foundGitHeader\<close> as arguments; it returns the last
  three, and the stream, when the input is exhausted. \<^verbatim>\<open>nextLine\<close> is a fresh, empty string
  at each from-file line.
\<close>

function Parse_loop ::
  "Stream \<Rightarrow> string \<Rightarrow> File list \<Rightarrow> string list \<Rightarrow> bool \<Rightarrow>
     error + (File list \<times> string list \<times> bool \<times> Stream)"
where
  "Parse_loop stream line0 files sourceFileLines foundGitHeader =
     (case GetLine stream line0 of
        (False, line, stream') \<Rightarrow> Inr (files, sourceFileLines, foundGitHeader, stream')
      | (True, line, stream') \<Rightarrow>
          if starts_with line ''diff --git''
          then Parse_loop stream' line files sourceFileLines True
          else if starts_with line FromFilePrefix
          then (case GetLine stream' [] of
                  (True, nextLine, stream'') \<Rightarrow>
                    if starts_with nextLine ToFilePrefix
                    then (case ExtractTargetFile nextLine of
                            Inl e \<Rightarrow> Inl e
                          | Inr target \<Rightarrow>
                              Parse_loop stream'' line (files @ [NewFile target])
                                (sourceFileLines @ [line]) foundGitHeader)
                    else ThrowError stream'' ErrorExpectFromFilePrefix
                | (False, nextLine, stream'') \<Rightarrow> ThrowError stream'' ErrorCannotReadLine)
          else if starts_with line ''@@''
          then (case FillUpdatedLines line files stream' of
                  Inl e \<Rightarrow> Inl e
                | Inr (files', stream'') \<Rightarrow>
                    Parse_loop stream'' line files' sourceFileLines foundGitHeader)
          else Parse_loop stream' line files sourceFileLines foundGitHeader)"
  by pat_completeness auto
termination
proof (relation "measure (\<lambda>(stream, line0, files, sourceFileLines, foundGitHeader).
          length (pending (istr stream)))")
  show "wf (measure (\<lambda>(stream, line0, files, sourceFileLines, foundGitHeader).
          length (pending (istr stream))))"
    by simp
qed (auto dest!: GetLine_True_length FillUpdatedLines_length
       sym [of "(True, _, _)" "GetLine _ _"])

declare Parse_loop.simps [simp del]

definition Parse :: "wistream \<Rightarrow> error + File list" where
  "Parse istr0 =
     (case Parse_loop (NewStream istr0) [] [] [] False of
        Inl e \<Rightarrow> Inl e
      | Inr (files, sourceFileLines, foundGitHeader, stream) \<Rightarrow>
          (case RemoveDevNull files sourceFileLines of
             (files', sourceFileLines') \<Rightarrow>
               UpdateFilePathIfGitDetected files' sourceFileLines' foundGitHeader))"

subsection \<open>The destination counter, in the spec's words\<close>

text \<open>
  A content line counts towards the destination side unless it is a removed line or the
  no-newline marker. \<open>dest_added n ls\<close> follows section 4.1 of the spec on the lines \<open>ls\<close>
  of a hunk whose counter stands at \<open>n\<close>: a removed line and a backslash line leave the
  counter alone, an added line records the counter and advances it, any other line
  (context) advances it.
\<close>

definition counted :: "string \<Rightarrow> bool" where
  "counted l \<longleftrightarrow> \<not> starts_with l ''-'' \<and> \<not> starts_with l [backslash]"

fun dest_added :: "int \<Rightarrow> string list \<Rightarrow> int list" where
  "dest_added n [] = []"
| "dest_added n (l # ls) =
     (if starts_with l ''-'' then dest_added n ls
      else if starts_with l [backslash] then dest_added n ls
      else if starts_with l ''+'' then n # dest_added (n + 1) ls
      else dest_added (n + 1) ls)"

text \<open>
  What post-processing works on: the files and the from-file lines that \<^verbatim>\<open>RemoveDevNull\<close>
  leaves, and the path with the git destination prefix erased.
\<close>

definition strip_path :: "File \<Rightarrow> File" where
  "strip_path file = SetPath file (drop (length GitTargetPrefix) (path file))"

definition kept_files :: "File list \<Rightarrow> File list" where
  "kept_files files = filter (\<lambda>file. path file \<noteq> DevNull) files"

definition kept_lines :: "string list \<Rightarrow> string list" where
  "kept_lines sourceFileLines =
     filter (\<lambda>line. \<not> starts_with line (FromFilePrefix @ DevNull)) sourceFileLines"









text \<open>
  \<open>next_line s\<close> is the stream \<open>s\<close> after its first pending line was read, \<open>skip_lines k s\<close>
  after \<open>k\<close> pending lines were read. \<open>read_state\<close> is the state of the stream after the first
  \<open>k\<close> lines of \<open>input\<close> were read, \<open>eof_state\<close> the state after a read failed at the end of
  \<open>input\<close>. \<open>reported input open_end e\<close> holds when a parser
  exception \<open>e\<close> carries the number of reads made so far and the text the last read left:
  the line of that number, or, one past the last line, the empty text or (for a hunk cut
  short, when the text has no final newline) the last line.
\<close>

definition next_line :: "Stream \<Rightarrow> Stream" where
  "next_line s =
     \<lparr>istr = (istr s)\<lparr>pending := tl (pending (istr s)),
              eofbit := (tl (pending (istr s)) = [] \<and> open_ended (istr s))\<rparr>,
      currentLine = currentLine s + 1,
      lastLineRead = hd (pending (istr s))\<rparr>"

fun skip_lines :: "nat \<Rightarrow> Stream \<Rightarrow> Stream" where
  "skip_lines 0 s = s"
| "skip_lines (Suc k) s = skip_lines k (next_line s)"




section \<open>The report exporter, path form\<close>

text \<open>
  \<^verbatim>\<open>CoberturaExporter::Export\<close> is not part of the sources at hand, only its tests are, so
  what follows is modelled from the spec. Section 4.3 gives the path form: missing parent
  directories are created before opening; a target that resolves to an existing
  directory, or cannot be opened for writing otherwise, gives the invalid-output-file
  error naming the path; an existing regular file is overwritten. The file system is a
  map from paths (lists of components, the root being the empty list) to nodes; a path
  ending in a separator has an empty last component and resolves to its parent; the
  document written is that of the stream form, a parameter here. The coverage tree is an
  argument that is only read: the result is the outcome and the new file system.
\<close>

datatype node = Directory | RegularFile string

type_synonym fpath = "string list"

type_synonym filesystem = "fpath \<Rightarrow> node option"

datatype export_error = InvalidOutputFileException fpath

definition is_directory :: "filesystem \<Rightarrow> fpath \<Rightarrow> bool" where
  "is_directory fs p \<longleftrightarrow> p = [] \<or> fs p = Some Directory"

definition parent_path :: "fpath \<Rightarrow> fpath" where
  "parent_path p = butlast p"

definition resolve :: "fpath \<Rightarrow> fpath" where
  "resolve p = (if p \<noteq> [] \<and> last p = [] then butlast p else p)"

fun mkdirs :: "fpath \<Rightarrow> fpath \<Rightarrow> filesystem \<Rightarrow> filesystem" where
  "mkdirs pre [] fs = fs"
| "mkdirs pre (c # cs) fs =
     mkdirs (pre @ [c]) cs (if fs (pre @ [c]) = None then fs(pre @ [c] \<mapsto> Directory) else fs)"

definition create_directories :: "fpath \<Rightarrow> filesystem \<Rightarrow> filesystem" where
  "create_directories p fs = mkdirs [] p fs"

definition can_open :: "filesystem \<Rightarrow> fpath \<Rightarrow> bool" where
  "can_open fs p \<longleftrightarrow>
     resolve p = p \<and> p \<noteq> [] \<and> \<not> is_directory fs p \<and> is_directory fs (parent_path p)"

text \<open>
  Modelled from the spec: the path form of \<^verbatim>\<open>Export\<close> (section 4.3), whose code is missing.
  The parent directories are created first, then the destination is opened in the file
  system so extended and the document is written, or the error naming the path is raised.
\<close>

definition Export_path ::
  "('c \<Rightarrow> string) \<Rightarrow> 'c \<Rightarrow> fpath \<Rightarrow> filesystem \<Rightarrow> (export_error + unit) \<times> filesystem" where
  "Export_path document coverageData output fs =
     (let fs' = create_directories (parent_path output) fs in
      if can_open fs' output
      then (Inr (), fs'(output \<mapsto> RegularFile (document coverageData)))
      else (Inl (InvalidOutputFileException output), fs'))"

section \<open>Properties of the hunk reader\<close>

lemma GetLine_line:
  "\<not> eofbit (istr s) \<Longrightarrow> pending (istr s) = l # ls \<Longrightarrow>
   GetLine s v = (True, l, next_line s)"
  by (simp add: GetLine_def std_getline_def next_line_def)

lemma GetLine_end:
  "\<not> eofbit (istr s) \<Longrightarrow> pending (istr s) = [] \<Longrightarrow>
   GetLine s v =
     (False, [], \<lparr>istr = (istr s)\<lparr>eofbit := True\<rparr>, currentLine = currentLine s + 1,
                   lastLineRead = []\<rparr>)"
  by (simp add: GetLine_def std_getline_def)

lemma GetLine_eof:
  "eofbit (istr s) \<Longrightarrow>
   GetLine s v = (False, v, \<lparr>istr = istr s, currentLine = currentLine s + 1, lastLineRead = v\<rparr>)"
  by (simp add: GetLine_def std_getline_def)

lemma next_line_fields:
  "pending (istr (next_line s)) = tl (pending (istr s))"
  "open_ended (istr (next_line s)) = open_ended (istr s)"
  "eofbit (istr (next_line s)) = (tl (pending (istr s)) = [] \<and> open_ended (istr s))"
  "currentLine (next_line s) = currentLine s + 1"
  "lastLineRead (next_line s) = hd (pending (istr s))"
  by (simp_all add: next_line_def)

lemma skip_lines_currentLine: "currentLine (skip_lines k s) = currentLine s + int k"
  by (induction k arbitrary: s) (simp_all add: next_line_fields)

lemma skip_lines_pending: "pending (istr (skip_lines k s)) = drop k (pending (istr s))"
  by (induction k arbitrary: s) (simp_all add: next_line_fields drop_Suc)


lemma skip_lines_eofbit:
  "0 < k \<Longrightarrow> eofbit (istr (skip_lines k s))
     = (drop k (pending (istr s)) = [] \<and> open_ended (istr s))"
proof (induction k arbitrary: s)
  case 0
  then show ?case by simp
next
  case (Suc k)
  show ?case
  proof (cases "k = 0")
    case True
    then show ?thesis by (simp add: next_line_fields drop_Suc)
  next
    case False
    with Suc.IH [of "next_line s"] show ?thesis
      by (simp add: next_line_fields drop_Suc)
  qed
qed

lemma skip_lines_lastLineRead:
  "0 < k \<Longrightarrow> k \<le> length (pending (istr s)) \<Longrightarrow>
   lastLineRead (skip_lines k s) = pending (istr s) ! (k - 1)"
proof (induction k arbitrary: s)
  case 0
  then show ?case by simp
next
  case (Suc k)
  from Suc.prems obtain l ls where p: "pending (istr s) = l # ls" "k \<le> length ls"
    by (cases "pending (istr s)") auto
  show ?case
  proof (cases "k = 0")
    case True
    with p show ?thesis by (simp add: next_line_fields)
  next
    case False
    with Suc.IH [of "next_line s"] p have
      "lastLineRead (skip_lines k (next_line s)) = ls ! (k - 1)"
      by (simp add: next_line_fields)
    with False p show ?thesis by (cases k) simp_all
  qed
qed

lemma loop_stop:
  "\<not> cur < e \<Longrightarrow> ExtractUpdatedLines_loop s v cur e upd = (cur, upd, s)"
  by (simp add: ExtractUpdatedLines_loop.simps [of s])

lemma loop_line:
  "cur < e \<Longrightarrow> \<not> eofbit (istr s) \<Longrightarrow> pending (istr s) = l # ls \<Longrightarrow>
   ExtractUpdatedLines_loop s v cur e upd =
     ExtractUpdatedLines_loop (next_line s) l
       (if counted l then cur + 1 else cur) e
       (if counted l \<and> starts_with l ''+'' then upd @ [cur] else upd)"
  by (simp add: ExtractUpdatedLines_loop.simps [of s] GetLine_line counted_def)

lemma loop_end:
  "cur < e \<Longrightarrow> \<not> eofbit (istr s) \<Longrightarrow> pending (istr s) = [] \<Longrightarrow>
   ExtractUpdatedLines_loop s v cur e upd =
     (cur, upd, \<lparr>istr = (istr s)\<lparr>eofbit := True\<rparr>, currentLine = currentLine s + 1,
                  lastLineRead = []\<rparr>)"
  by (simp add: ExtractUpdatedLines_loop.simps [of s] GetLine_end)

lemma loop_eof:
  "cur < e \<Longrightarrow> eofbit (istr s) \<Longrightarrow>
   ExtractUpdatedLines_loop s v cur e upd =
     (cur, upd, \<lparr>istr = istr s, currentLine = currentLine s + 1, lastLineRead = v\<rparr>)"
  by (simp add: ExtractUpdatedLines_loop.simps [of s] GetLine_eof)

text \<open>
  A run of the loop on a stream with the lines \<open>ls\<close> pending reads some \<open>k\<close> of them. It
  ends below \<open>e\<close> only when the stream is exhausted, after a failed read that is counted;
  the text left by that read is empty, unless the stream hit the end of the text in the
  middle of a line: then it is the string the loop held, the last line it read.
\<close>

lemma loop_run:
  assumes "eofbit (istr s) \<longrightarrow> pending (istr s) = []"
    and "pending (istr s) = ls"
    and "ExtractUpdatedLines_loop s v cur e upd = (cur', upd', s')"
  shows "\<exists>k\<le>length ls.
      upd' = upd @ dest_added cur (take k ls)
    \<and> cur' = cur + int (length (filter counted (take k ls)))
    \<and> (cur < e \<longrightarrow> cur' \<le> e)
    \<and> (cur' < e \<longrightarrow> k = length ls
          \<and> pending (istr s') = [] \<and> open_ended (istr s') = open_ended (istr s)
          \<and> eofbit (istr s')
          \<and> currentLine s' = currentLine s + int k + 1
          \<and> lastLineRead s' =
               (if ls = [] then (if eofbit (istr s) then v else [])
                else if open_ended (istr s) then last ls else []))
    \<and> (\<not> cur' < e \<longrightarrow> s' = skip_lines k s
          \<and> (0 < k \<longrightarrow> counted (ls ! (k - 1)) \<and> cur' = e))"
  using assms
proof (induction ls arbitrary: s v cur upd)
  case Nil
  show ?case
  proof (cases "cur < e")
    case False
    with Nil show ?thesis by (auto simp: loop_stop)
  next
    case True
    show ?thesis
    proof (cases "eofbit (istr s)")
      case True
      with \<open>cur < e\<close> Nil show ?thesis by (auto simp: loop_eof)
    next
      case False
      with \<open>cur < e\<close> Nil show ?thesis by (auto simp: loop_end)
    qed
  qed
next
  case (Cons l ls)
  show ?case
  proof (cases "cur < e")
    case False
    with Cons.prems show ?thesis
      by (intro exI [of _ 0]) (auto simp: loop_stop)
  next
    case True
    from Cons.prems(1,2) have ne: "\<not> eofbit (istr s)" by auto
    let ?s1 = "next_line s"
    let ?c1 = "if counted l then cur + 1 else cur"
    let ?u1 = "if counted l \<and> starts_with l ''+'' then upd @ [cur] else upd"
    have run: "ExtractUpdatedLines_loop ?s1 l ?c1 e ?u1 = (cur', upd', s')"
      using Cons.prems True ne by (simp add: loop_line)
    have s1: "pending (istr ?s1) = ls" "open_ended (istr ?s1) = open_ended (istr s)"
      "eofbit (istr ?s1) = (ls = [] \<and> open_ended (istr s))"
      "currentLine ?s1 = currentLine s + 1"
      using Cons.prems(2) by (simp_all add: next_line_fields)
    then have sane1: "eofbit (istr ?s1) \<longrightarrow> pending (istr ?s1) = []" by simp
    from Cons.IH [OF sane1 s1(1) run] obtain k where k: "k \<le> length ls"
      "upd' = ?u1 @ dest_added ?c1 (take k ls)"
      "cur' = ?c1 + int (length (filter counted (take k ls)))"
      "?c1 < e \<longrightarrow> cur' \<le> e"
      "cur' < e \<longrightarrow> k = length ls
          \<and> pending (istr s') = [] \<and> open_ended (istr s') = open_ended (istr ?s1)
          \<and> eofbit (istr s')
          \<and> currentLine s' = currentLine ?s1 + int k + 1
          \<and> lastLineRead s' =
               (if ls = [] then (if eofbit (istr ?s1) then l else [])
                else if open_ended (istr ?s1) then last ls else [])"
      "\<not> cur' < e \<longrightarrow> s' = skip_lines k ?s1
          \<and> (0 < k \<longrightarrow> counted (ls ! (k - 1)) \<and> cur' = e)"
      by blast
    have stop0: "k = 0 \<and> cur' = ?c1" if "\<not> ?c1 < e"
    proof -
      from that run have c: "cur' = ?c1" "s' = ?s1" by (simp_all add: loop_stop)
      with that k(6) have "skip_lines k ?s1 = ?s1" by auto
      then have "currentLine (skip_lines k ?s1) = currentLine ?s1" by simp
      then have "k = 0" by (simp add: skip_lines_currentLine)
      with c show ?thesis by simp
    qed
    show ?thesis
    proof (intro exI [of _ "Suc k"] conjI impI)
      show "Suc k \<le> length (l # ls)" using k(1) by simp
      show "upd' = upd @ dest_added cur (take (Suc k) (l # ls))"
        using k(2) by (auto simp: counted_def)
      show "cur' = cur + int (length (filter counted (take (Suc k) (l # ls))))"
        using k(3) by auto
      show "cur' \<le> e" using k(4) True stop0 by (cases "?c1 < e") (auto split: if_splits)
    next
      assume "cur' < e"
      with k(5) s1 show "Suc k = length (l # ls)" "pending (istr s') = []"
        "open_ended (istr s') = open_ended (istr s)" "eofbit (istr s')"
        "currentLine s' = currentLine s + int (Suc k) + 1"
        "lastLineRead s' =
               (if l # ls = [] then (if eofbit (istr s) then v else [])
                else if open_ended (istr s) then last (l # ls) else [])"
        by auto
    next
      assume a: "\<not> cur' < e"
      with k(6) have "s' = skip_lines k ?s1" by simp
      then show "s' = skip_lines (Suc k) s" by simp
    next
      assume a: "\<not> cur' < e" "0 < Suc k"
      show "counted ((l # ls) ! (Suc k - 1))"
      proof (cases k)
        case 0
        with k(3) a True show ?thesis by (auto split: if_splits)
      next
        case (Suc j)
        with a k(6) show ?thesis by auto
      qed
      show "cur' = e"
      proof (cases k)
        case 0
        with k(3) a True show ?thesis by (auto split: if_splits)
      next
        case (Suc j)
        with a k(6) show ?thesis by auto
      qed
    qed
  qed
qed

lemma is_digit_val: "is_digit c \<Longrightarrow> 0 \<le> digit_val c \<and> digit_val c \<le> 9"
  by (auto simp: is_digit_def digit_val_def)

lemma foldl_decimal_nonneg:
  "\<forall>c\<in>set ds. is_digit c \<Longrightarrow> 0 \<le> a \<Longrightarrow> 0 \<le> foldl (\<lambda>acc c. 10 * acc + digit_val c) a ds"
proof (induction ds arbitrary: a)
  case Nil
  then show ?case by simp
next
  case (Cons d ds)
  from Cons.prems have "0 \<le> 10 * a + digit_val d"
    using is_digit_val [of d] by simp
  with Cons show ?case by simp
qed

lemma decimal_nonneg: "\<forall>c\<in>set ds. is_digit c \<Longrightarrow> 0 \<le> decimal ds"
  by (simp add: decimal_def foldl_decimal_nonneg)

lemma stoi_range: "\<forall>c\<in>set ds. is_digit c \<Longrightarrow> stoi ds = Inr n \<Longrightarrow> 0 \<le> n \<and> n \<le> INT_MAX"
  by (auto simp: stoi_def decimal_nonneg split: if_splits)

lemma match_range_digits:
  "match_range r = Some (m1, m2, r') \<Longrightarrow>
   (\<forall>c\<in>set m1. is_digit c) \<and> (\<forall>ds. m2 = Some ds \<longrightarrow> (\<forall>c\<in>set ds. is_digit c))"
  by (auto simp: match_range_def Let_def split: if_splits list.splits dest: set_takeWhileD)

lemma regex_search_hunk_parts:
  assumes "regex_search_hunk line = Some (m1, m2, m3, m4)"
  obtains r r' r'' r''' where
    "starts_with line ''@@''"
    "dropWhile is_space (drop 2 line) = CHR ''-'' # r"
    "match_range r = Some (m1, m2, r')"
    "dropWhile is_space r' = CHR ''+'' # r''"
    "match_range r'' = Some (m3, m4, r''')"
    "starts_with (dropWhile is_space r''') ''@@''"
proof -
  from assms have a: "starts_with line ''@@''"
    by (simp add: regex_search_hunk_def split: if_splits)
  from assms a obtain c r where b: "dropWhile is_space (drop 2 line) = c # r"
    by (cases "dropWhile is_space (drop 2 line)") (simp_all add: regex_search_hunk_def)
  from assms a b have c: "c = CHR ''-''"
    by (simp add: regex_search_hunk_def split: if_splits)
  from assms a b c obtain x1 x2 r' where d: "match_range r = Some (x1, x2, r')"
    by (cases "match_range r") (auto simp: regex_search_hunk_def)
  from assms a b c d obtain c' r'' where e: "dropWhile is_space r' = c' # r''"
    by (cases "dropWhile is_space r'") (simp_all add: regex_search_hunk_def)
  from assms a b c d e have f: "c' = CHR ''+''"
    by (simp add: regex_search_hunk_def split: if_splits)
  from assms a b c d e f obtain x3 x4 r''' where g: "match_range r'' = Some (x3, x4, r''')"
    by (cases "match_range r''") (auto simp: regex_search_hunk_def)
  from assms a b c d e f g have h: "starts_with (dropWhile is_space r''') ''@@''"
    "x1 = m1" "x2 = m2" "x3 = m3" "x4 = m4"
    by (simp_all add: regex_search_hunk_def split: if_splits)
  with a b c d e f g that show thesis by simp
qed

lemma regex_search_hunk_digits:
  assumes "regex_search_hunk line = Some (m1, m2, m3, m4)"
  shows "(\<forall>c\<in>set m1. is_digit c) \<and> (\<forall>ds. m2 = Some ds \<longrightarrow> (\<forall>c\<in>set ds. is_digit c)) \<and>
   (\<forall>c\<in>set m3. is_digit c) \<and> (\<forall>ds. m4 = Some ds \<longrightarrow> (\<forall>c\<in>set ds. is_digit c))"
proof -
  from assms obtain r r' r'' r''' where
    "match_range r = Some (m1, m2, r')" "match_range r'' = Some (m3, m4, r''')"
    by (rule regex_search_hunk_parts)
  then show ?thesis using match_range_digits by blast
qed

lemma stoi_or_1_range:
  "\<forall>ds. m = Some ds \<longrightarrow> (\<forall>c\<in>set ds. is_digit c) \<Longrightarrow> stoi_or_1 m = Inr n \<Longrightarrow>
   0 \<le> n \<and> n \<le> INT_MAX"
  by (cases m) (auto simp: stoi_or_1_def INT_MAX_def dest: stoi_range)

lemma ExtractHunksDifferences_range:
  assumes "ExtractHunksDifferences s line = Inr h"
  shows "0 \<le> startFrom h \<and> startFrom h \<le> INT_MAX \<and> 0 \<le> countFrom h \<and> countFrom h \<le> INT_MAX \<and>
         0 \<le> startTo h \<and> startTo h \<le> INT_MAX \<and> 0 \<le> countTo h \<and> countTo h \<le> INT_MAX"
proof -
  from assms obtain m1 m2 m3 m4 where m: "regex_search_hunk line = Some (m1, m2, m3, m4)"
    by (auto simp: ExtractHunksDifferences_def ThrowError_def split: option.splits)
  with assms have v: "stoi m1 = Inr (startFrom h)" "stoi_or_1 m2 = Inr (countFrom h)"
    "stoi m3 = Inr (startTo h)" "stoi_or_1 m4 = Inr (countTo h)"
    by (auto simp: ExtractHunksDifferences_def split: sum.splits)
  note d = regex_search_hunk_digits [OF m]
  from d v(1) have "0 \<le> startFrom h \<and> startFrom h \<le> INT_MAX" by (blast dest: stoi_range)
  moreover from d v(2) have "0 \<le> countFrom h \<and> countFrom h \<le> INT_MAX"
    by (blast dest: stoi_or_1_range)
  moreover from d v(3) have "0 \<le> startTo h \<and> startTo h \<le> INT_MAX" by (blast dest: stoi_range)
  moreover from d v(4) have "0 \<le> countTo h \<and> countTo h \<le> INT_MAX"
    by (blast dest: stoi_or_1_range)
  ultimately show ?thesis by blast
qed

lemma int_add_exact: "0 \<le> a \<Longrightarrow> 0 \<le> b \<Longrightarrow> a + b \<le> INT_MAX \<Longrightarrow> int_add a b = a + b"
  by (simp add: int_add_def INT_MAX_def)

lemma regex_search_hunk_starts:
  "regex_search_hunk line = Some m \<Longrightarrow> starts_with line ''@@''"
  by (auto simp: regex_search_hunk_def split: if_splits)

lemma ExtractHunksDifferences_starts:
  "ExtractHunksDifferences s line = Inr h \<Longrightarrow> starts_with line ''@@''"
  by (auto simp: ExtractHunksDifferences_def ThrowError_def split: option.splits
           dest: regex_search_hunk_starts)

lemma ExtractHunksDifferences_stream:
  "ExtractHunksDifferences s line = Inr h \<Longrightarrow> ExtractHunksDifferences s' line = Inr h"
  by (auto simp: ExtractHunksDifferences_def ThrowError_def split: option.splits)

lemma filter_take_last:
  "0 < k \<Longrightarrow> k \<le> length ls \<Longrightarrow> P (ls ! (k - 1)) \<Longrightarrow> filter P (take k ls) \<noteq> []"
proof -
  assume a: "0 < k" "k \<le> length ls" "P (ls ! (k - 1))"
  then have "ls ! (k - 1) \<in> set (take k ls)"
    by (metis One_nat_def Suc_pred diff_less in_set_conv_nth length_take lessI min.absorb2 nth_take zero_less_one)
  with a(3) show ?thesis by (auto simp: filter_empty_conv)
qed

lemma length_filter_take_le: "length (filter P (take k ls)) \<le> length (filter P ls)"
proof -
  have "length (filter P ls) = length (filter P (take k ls)) + length (filter P (drop k ls))"
    by (metis append_take_drop_id filter_append length_append)
  then show ?thesis by simp
qed

text \<open>
  What reading one hunk does, when the sum of start and count fits an \<^verbatim>\<open>int\<close>: with too few
  counted lines left the stream is exhausted and the error carries the state after the
  failed read; otherwise the shortest prefix holding \<open>countTo\<close> counted lines is consumed.
\<close>

lemma ExtractUpdatedLines_run:
  assumes h: "ExtractHunksDifferences s line = Inr h"
    and fit: "startTo h + countTo h \<le> INT_MAX"
    and sane: "eofbit (istr s) \<longrightarrow> pending (istr s) = []"
  shows "if int (length (filter counted (pending (istr s)))) < countTo h
         then ExtractUpdatedLines s line =
                Inl (UnifiedDiffParserException
                       (currentLine s + int (length (pending (istr s))) + 1)
                       (if pending (istr s) \<noteq> [] \<and> open_ended (istr s)
                        then last (pending (istr s)) else [])
                       ErrorContextHunks)
         else (\<exists>k\<le>length (pending (istr s)).
                 ExtractUpdatedLines s line =
                   Inr (dest_added (startTo h) (take k (pending (istr s))), skip_lines k s)
               \<and> int (length (filter counted (take k (pending (istr s))))) = countTo h
               \<and> (0 < k \<longrightarrow> counted (pending (istr s) ! (k - 1))))"
proof -
  note r = ExtractHunksDifferences_range [OF h]
  let ?e = "startTo h + countTo h" and ?ls = "pending (istr s)"
  have e: "int_add (startTo h) (countTo h) = ?e"
    using r fit by (simp add: int_add_exact)
  obtain cur' upd' s' where run:
    "ExtractUpdatedLines_loop s [] (startTo h) ?e [] = (cur', upd', s')"
    by (cases "ExtractUpdatedLines_loop s [] (startTo h) ?e []") auto
  from loop_run [OF sane refl run] obtain k where k: "k \<le> length ?ls"
      "upd' = [] @ dest_added (startTo h) (take k ?ls)"
      "cur' = startTo h + int (length (filter counted (take k ?ls)))"
      "startTo h < ?e \<longrightarrow> cur' \<le> ?e"
      "cur' < ?e \<longrightarrow> k = length ?ls
          \<and> pending (istr s') = [] \<and> open_ended (istr s') = open_ended (istr s)
          \<and> eofbit (istr s')
          \<and> currentLine s' = currentLine s + int k + 1
          \<and> lastLineRead s' =
               (if ?ls = [] then (if eofbit (istr s) then [] else [])
                else if open_ended (istr s) then last ?ls else [])"
      "\<not> cur' < ?e \<longrightarrow> s' = skip_lines k s
          \<and> (0 < k \<longrightarrow> counted (?ls ! (k - 1)) \<and> cur' = ?e)"
    by blast
  have res: "ExtractUpdatedLines s line =
       (if cur' \<noteq> ?e then ThrowError s' ErrorContextHunks else Inr (upd', s'))"
    using h e run by (simp add: ExtractUpdatedLines_def)
  show ?thesis
  proof (cases "cur' < ?e")
    case True
    with k(5) have kl: "k = length ?ls" "currentLine s' = currentLine s + int k + 1"
      "lastLineRead s' = (if ?ls \<noteq> [] \<and> open_ended (istr s) then last ?ls else [])"
      by auto
    from True k(3) kl(1) have "int (length (filter counted ?ls)) < countTo h" by simp
    with True res kl show ?thesis by (simp add: ThrowError_def)
  next
    case False
    with k(6) have st: "s' = skip_lines k s"
      "0 < k \<longrightarrow> counted (?ls ! (k - 1)) \<and> cur' = ?e" by auto
    have ce: "cur' = ?e"
    proof (cases "0 < k")
      case True
      with st(2) show ?thesis by simp
    next
      case k0: False
      with k(3) have "cur' = startTo h" by simp
      with False k(4) r show ?thesis by (cases "startTo h < ?e") auto
    qed
    with k(3) have cnt: "int (length (filter counted (take k ?ls))) = countTo h" by simp
    have "length (filter counted (take k ?ls)) \<le> length (filter counted ?ls)"
      by (rule length_filter_take_le)
    with cnt have nlt: "\<not> int (length (filter counted ?ls)) < countTo h" by linarith
    from res ce k(2) [unfolded append_Nil] st(1) have "ExtractUpdatedLines s line =
        Inr (dest_added (startTo h) (take k ?ls), skip_lines k s)"
      by simp
    with nlt cnt st(2) k(1) show ?thesis by (simp only: if_False) blast
  qed
qed

section \<open>Evaluating the parser on a given input\<close>

lemma starts_with_Nil: "starts_with s [] = True"
  by (simp add: starts_with_def)

lemma starts_with_Cons: "starts_with (c # cs) (d # ds) \<longleftrightarrow> c = d \<and> starts_with cs ds"
  by (auto simp: starts_with_def)

lemma starts_with_Nil_Cons: "starts_with [] (d # ds) = False"
  by (simp add: starts_with_def)

lemmas starts_with_simps = starts_with_Nil starts_with_Cons starts_with_Nil_Cons


lemma ExtractUpdatedLines_consumed:
  assumes "ExtractUpdatedLines s line = Inr (upd, s')"
    and "ExtractHunksDifferences s line = Inr h"
  shows "upd = dest_added (startTo h)
           (take (length (pending (istr s)) - length (pending (istr s'))) (pending (istr s)))"
proof -
  let ?e = "int_add (startTo h) (countTo h)" and ?ls = "pending (istr s)"
  obtain cur' upd' t where run:
    "ExtractUpdatedLines_loop s [] (startTo h) ?e [] = (cur', upd', t)"
    by (cases "ExtractUpdatedLines_loop s [] (startTo h) ?e []") auto
  with assms have eq: "upd' = upd" "t = s'" "cur' = ?e"
    by (auto simp: ExtractUpdatedLines_def ThrowError_def split: if_splits)
  show ?thesis
  proof (cases "startTo h < ?e")
    case False
    with run eq show ?thesis by (simp add: loop_stop)
  next
    case True
    have sane: "eofbit (istr s) \<longrightarrow> ?ls = []"
    proof
      assume "eofbit (istr s)"
      with True run have "cur' = startTo h" by (simp add: loop_eof)
      with True eq(3) show "?ls = []" by simp
    qed
    from loop_run [OF sane refl run] obtain k where k: "k \<le> length ?ls"
      "upd' = [] @ dest_added (startTo h) (take k ?ls)"
      "\<not> cur' < ?e \<longrightarrow> t = skip_lines k s \<and> (0 < k \<longrightarrow> counted (?ls ! (k - 1)) \<and> cur' = ?e)"
      by blast
    from k(3) eq have "s' = skip_lines k s" by simp
    then have "pending (istr s') = drop k ?ls"
      by (simp add: skip_lines_pending)
    with k(1) have "length ?ls - length (pending (istr s')) = k" by simp
    with k(2) eq show ?thesis by simp
  qed
qed

text \<open>The defining equations that a run on a concrete input unfolds.\<close>

lemmas Parse_eval =
  Parse_def NewStream_def wistream_of_def Parse_loop.simps GetLine_def std_getline_def
  starts_with_simps FromFilePrefix_def ToFilePrefix_def ExtractTargetFile_def tab_def NewFile_def
  FillUpdatedLines_def ExtractUpdatedLines_def ExtractHunksDifferences_def ThrowError_def
  regex_search_hunk_def match_range_def is_space_def is_digit_def stoi_def stoi_or_1_def
  decimal_def digit_val_def INT_MAX_def int_add_def ExtractUpdatedLines_loop.simps
  backslash_def AddSelectedLines_def set_insert_def RemoveDevNull_def DevNull_def
  UpdateFilePathIfGitDetected_def IsGitDetected_def GitTargetPrefix_def SetPath_def
  counted_def next_line_def Let_def



section \<open>The claims of the spec about hunks\<close>

text \<open>
  C2. The first scenario of section 8: a from-file line, the to-file line naming
  \<^verbatim>\<open>foo.txt\<close>, the header \<^verbatim>\<open>@@ -1,2 +1,3 @@\<close>, a context line, a removed line and two
  added lines give one file record, \<^verbatim>\<open>foo.txt\<close> with the selected lines 2 and 3, whatever
  the text of the lines is and whether or not the last one ends with a newline. More
  generally the lines a hunk records are those the counter rules of the spec
  (\<open>dest_added\<close>: start at \<open>startTo\<close>, context advances, a removed line does not, an added
  line is recorded at the current value and advances) give on the lines the hunk
  consumed.
\<close>

theorem Parse_example_foo_txt:
  "Parse (wistream_of [''--- '' @ src, ''+++ foo.txt'', ''@@ -1,2 +1,3 @@'',
                       CHR '' '' # c, CHR ''-'' # r, CHR ''+'' # a1, CHR ''+'' # a2] final_newline)
     = Inr [\<lparr>path = ''foo.txt'', selectedLines = [2, 3]\<rparr>]
   \<and> (ExtractHunksDifferences s line = Inr h \<longrightarrow> ExtractUpdatedLines s line = Inr (upd, s') \<longrightarrow>
        upd = dest_added (startTo h)
                (take (length (pending (istr s)) - length (pending (istr s')))
                   (pending (istr s))))"
proof (intro conjI impI)
  show "Parse (wistream_of [''--- '' @ src, ''+++ foo.txt'', ''@@ -1,2 +1,3 @@'',
                       CHR '' '' # c, CHR ''-'' # r, CHR ''+'' # a1, CHR ''+'' # a2] final_newline)
     = Inr [\<lparr>path = ''foo.txt'', selectedLines = [2, 3]\<rparr>]"
    by (simp add: Parse_eval)
next
  assume "ExtractHunksDifferences s line = Inr h" "ExtractUpdatedLines s line = Inr (upd, s')"
  then show "upd = dest_added (startTo h)
                (take (length (pending (istr s)) - length (pending (istr s')))
                   (pending (istr s)))"
    by (simp add: ExtractUpdatedLines_consumed)
qed

theorem Parse_example_foo_txt_witness:
  "ExtractHunksDifferences
      \<lparr>istr = \<lparr>pending = ['' context'', ''-removed'', ''+added'', ''+added'', ''tail''],
                open_ended = False, eofbit = False\<rparr>,
       currentLine = 3, lastLineRead = ''@@ -1,2 +1,3 @@''\<rparr> ''@@ -1,2 +1,3 @@''
     = Inr \<lparr>startFrom = 1, countFrom = 2, startTo = 1, countTo = 3\<rparr>
   \<and> ExtractUpdatedLines
      \<lparr>istr = \<lparr>pending = ['' context'', ''-removed'', ''+added'', ''+added'', ''tail''],
                open_ended = False, eofbit = False\<rparr>,
       currentLine = 3, lastLineRead = ''@@ -1,2 +1,3 @@''\<rparr> ''@@ -1,2 +1,3 @@''
     = Inr ([2, 3], \<lparr>istr = \<lparr>pending = [''tail''], open_ended = False, eofbit = False\<rparr>,
                     currentLine = 7, lastLineRead = ''+added''\<rparr>)
   \<and> [2, 3] = dest_added 1 ['' context'', ''-removed'', ''+added'', ''+added'']"
proof -
  let ?s = "\<lparr>istr = \<lparr>pending = ['' context'', ''-removed'', ''+added'', ''+added'', ''tail''],
                       open_ended = False, eofbit = False\<rparr>,
             currentLine = 3, lastLineRead = ''@@ -1,2 +1,3 @@''\<rparr>"
  let ?h = "\<lparr>startFrom = 1, countFrom = 2, startTo = 1, countTo = 3\<rparr>"
  let ?s' = "\<lparr>istr = \<lparr>pending = [''tail''], open_ended = False, eofbit = False\<rparr>,
              currentLine = 7, lastLineRead = ''+added''\<rparr>"
  have a: "ExtractHunksDifferences ?s ''@@ -1,2 +1,3 @@'' = Inr ?h"
    by (simp add: Parse_eval)
  have b: "ExtractUpdatedLines ?s ''@@ -1,2 +1,3 @@'' = Inr ([2, 3], ?s')"
    by (simp add: Parse_eval)
  from Parse_example_foo_txt [of "[]" "[]" "[]" "[]" "[]" True ?s "''@@ -1,2 +1,3 @@''" ?h
      "[2, 3]" ?s']
  have "[2, 3] = dest_added 1 ['' context'', ''-removed'', ''+added'', ''+added'']"
    using a b by simp
  with a b show ?thesis by blast
qed

text \<open>
  C3, as stated, asks for exactly \<open>countTo\<close> counted lines before the next header or the
  end of the input, any mismatch being an error. The parser does not look for the end of
  a hunk: with two counted lines where three are declared the following header is read
  as the third, and lines beyond the declared count are left to the main loop.
\<close>

theorem hunk_count_mismatch_counterexample:
  "Parse (wistream_of [''--- a'', ''+++ f'', ''@@ -10,3 +10,3 @@'', ''+x'', ''+y'',
                       ''@@ -20 +20 @@'', ''+z''] True)
     = Inr [\<lparr>path = ''f'', selectedLines = [10, 11]\<rparr>]
   \<and> Parse (wistream_of [''--- a'', ''+++ f'', ''@@ -10,3 +10,3 @@'', '' c1'', '' c2'', '' c3'',
                         '' c4''] True)
     = Inr [\<lparr>path = ''f'', selectedLines = []\<rparr>]"
  by (simp add: Parse_eval)

text \<open>
  C3, amended. For a header whose start and count sum fits an \<^verbatim>\<open>int\<close>, the hunk reader
  reads lines until the counter, advanced by every line that is neither a removed line
  nor a backslash line, reaches \<open>startTo + countTo\<close>: it consumes the shortest prefix of
  the pending input holding \<open>countTo\<close> such lines and stops there. When the pending input
  holds fewer, the stream is exhausted and the parse fails with \<open>ErrorContextHunks\<close>,
  reported one past the last line; the reported text is empty, or the last line when
  the text ends without a newline.
\<close>

theorem hunk_reads_until_count:
  assumes "ExtractHunksDifferences s line = Inr h"
    and "startTo h + countTo h \<le> INT_MAX"
    and "eofbit (istr s) \<longrightarrow> pending (istr s) = []"
  shows "if int (length (filter counted (pending (istr s)))) < countTo h
         then ExtractUpdatedLines s line =
                Inl (UnifiedDiffParserException
                       (currentLine s + int (length (pending (istr s))) + 1)
                       (if pending (istr s) \<noteq> [] \<and> open_ended (istr s)
                        then last (pending (istr s)) else [])
                       ErrorContextHunks)
         else (\<exists>k\<le>length (pending (istr s)).
                 ExtractUpdatedLines s line =
                   Inr (dest_added (startTo h) (take k (pending (istr s))), skip_lines k s)
               \<and> int (length (filter counted (take k (pending (istr s))))) = countTo h
               \<and> (0 < k \<longrightarrow> counted (pending (istr s) ! (k - 1))))"
  using assms by (rule ExtractUpdatedLines_run)

theorem hunk_reads_until_count_witness:
  "ExtractHunksDifferences
      \<lparr>istr = \<lparr>pending = ['' a'', ''-b'', ''+c''], open_ended = False, eofbit = False\<rparr>,
       currentLine = 3, lastLineRead = ''@@ -10,3 +10,3 @@''\<rparr> ''@@ -10,3 +10,3 @@''
     = Inr \<lparr>startFrom = 10, countFrom = 3, startTo = 10, countTo = 3\<rparr>
   \<and> (10 :: int) + 3 \<le> INT_MAX
   \<and> ExtractUpdatedLines
      \<lparr>istr = \<lparr>pending = ['' a'', ''-b'', ''+c''], open_ended = False, eofbit = False\<rparr>,
       currentLine = 3, lastLineRead = ''@@ -10,3 +10,3 @@''\<rparr> ''@@ -10,3 +10,3 @@''
     = Inl (UnifiedDiffParserException 7 [] ErrorContextHunks)"
proof -
  let ?s = "\<lparr>istr = \<lparr>pending = ['' a'', ''-b'', ''+c''], open_ended = False, eofbit = False\<rparr>,
             currentLine = 3, lastLineRead = ''@@ -10,3 +10,3 @@''\<rparr>"
  let ?h = "\<lparr>startFrom = 10, countFrom = 3, startTo = 10, countTo = 3\<rparr>"
  have a: "ExtractHunksDifferences ?s ''@@ -10,3 +10,3 @@'' = Inr ?h"
    by (simp add: Parse_eval)
  have b: "startTo ?h + countTo ?h \<le> INT_MAX"
    by (simp add: INT_MAX_def)
  have c: "eofbit (istr ?s) \<longrightarrow> pending (istr ?s) = []" by simp
  from hunk_reads_until_count [OF a b c]
  have "ExtractUpdatedLines ?s ''@@ -10,3 +10,3 @@''
          = Inl (UnifiedDiffParserException 7 [] ErrorContextHunks)"
    by (simp add: counted_def starts_with_simps backslash_def)
  with a show ?thesis by (simp add: INT_MAX_def)
qed

section \<open>Post-processing\<close>

lemma strip_git_prefix_all:
  "list_all (\<lambda>file. starts_with (path file) GitTargetPrefix) files \<Longrightarrow>
   strip_git_prefix files = Inr (map strip_path files)"
  by (induction files) (simp_all add: strip_path_def)

lemma UpdateFilePathIfGitDetected_total:
  "UpdateFilePathIfGitDetected files srcs g =
     Inr (if IsGitDetected files srcs g then map strip_path files else files)"
  by (simp add: UpdateFilePathIfGitDetected_def IsGitDetected_def strip_git_prefix_all)

lemma Parse_post:
  assumes "Parse_loop (NewStream istr0) [] [] [] False = Inr (files, srcs, g, s)"
  shows "Parse istr0 =
     Inr (if IsGitDetected (kept_files files) (kept_lines srcs) g
          then map strip_path (kept_files files) else kept_files files)"
  using assms
  by (simp add: Parse_def RemoveDevNull_def UpdateFilePathIfGitDetected_total
        kept_files_def kept_lines_def)





text \<open>
  C4, as stated, makes stripping depend on every recorded from-file line. A from-file
  line naming the null device is recorded and does not begin with the source prefix, yet
  the paths are stripped: detection reads the lines left after sentinel filtering.
\<close>

theorem git_detection_counterexample:
  "Parse (wistream_of [''diff --git a/x b/x'', ''--- /dev/null'', ''+++ b/x'',
          ''diff --git a/y b/y'', ''--- a/y'', ''+++ b/y''] True)
     = Inr [\<lparr>path = ''x'', selectedLines = []\<rparr>, \<lparr>path = ''y'', selectedLines = []\<rparr>]"
  by (simp add: Parse_eval)

text \<open>
  C4, amended. Stripping is all or nothing: every path of the result has lost the
  destination prefix if a git marker line was seen, every file left by sentinel
  filtering has a path beginning with \<^verbatim>\<open>b/\<close> and every from-file line left by sentinel
  filtering begins with \<^verbatim>\<open>--- a/\<close>; otherwise no path of the result is changed.
\<close>

theorem git_detection_all_or_nothing:
  assumes "Parse_loop (NewStream istr0) [] [] [] False = Inr (files, srcs, g, s)"
  shows "Parse istr0 =
     Inr (if g \<and> list_all (\<lambda>file. starts_with (path file) ''b/'') (kept_files files)
               \<and> list_all (\<lambda>line. starts_with line ''--- a/'') (kept_lines srcs)
          then map (\<lambda>file. file\<lparr>path := drop 2 (path file)\<rparr>) (kept_files files)
          else kept_files files)"
proof -
  have "map strip_path (kept_files files) = map (\<lambda>file. file\<lparr>path := drop 2 (path file)\<rparr>) (kept_files files)"
    by (simp add: strip_path_def SetPath_def GitTargetPrefix_def numeral_2_eq_2)
  then show ?thesis
    using Parse_post [OF assms]
    by (simp add: IsGitDetected_def GitTargetPrefix_def FromFilePrefix_def)
qed

theorem git_detection_all_or_nothing_witness:
  "Parse_loop (NewStream (wistream_of [''diff --git a/x b/x'', ''--- a/x'', ''+++ b/x'', ''--- a/y'', ''+++ y''] True))
       [] [] [] False
     = Inr ([NewFile ''b/x'', NewFile ''y''], [''--- a/x'', ''--- a/y''], True,
            \<lparr>istr = \<lparr>pending = [], open_ended = False, eofbit = True\<rparr>,
             currentLine = 6, lastLineRead = []\<rparr>)
   \<and> Parse (wistream_of [''diff --git a/x b/x'', ''--- a/x'', ''+++ b/x'', ''--- a/y'', ''+++ y''] True)
     = Inr [NewFile ''b/x'', NewFile ''y'']"
proof -
  let ?input = "wistream_of [''diff --git a/x b/x'', ''--- a/x'', ''+++ b/x'', ''--- a/y'', ''+++ y''] True"
  have a: "Parse_loop (NewStream ?input) [] [] [] False
     = Inr ([NewFile ''b/x'', NewFile ''y''], [''--- a/x'', ''--- a/y''], True,
            \<lparr>istr = \<lparr>pending = [], open_ended = False, eofbit = True\<rparr>,
             currentLine = 6, lastLineRead = []\<rparr>)"
    by (simp add: Parse_eval)
  from git_detection_all_or_nothing [OF a] a show ?thesis
    by (simp add: kept_files_def kept_lines_def NewFile_def DevNull_def starts_with_simps
          FromFilePrefix_def)
qed

text \<open>
  C5, as stated, has detection run before sentinel filtering, so that a registered file
  whose destination is the null device would defeat detection. \<^verbatim>\<open>Parse\<close> calls
  \<^verbatim>\<open>RemoveDevNull\<close> first and \<^verbatim>\<open>UpdateFilePathIfGitDetected\<close> second.
\<close>

theorem sentinel_filter_order_counterexample:
  "Parse (wistream_of [''diff --git a/y b/y'', ''--- a/y'', ''+++ /dev/null'',
          ''diff --git a/x b/x'', ''--- a/x'', ''+++ b/x''] True)
     = Inr [\<lparr>path = ''x'', selectedLines = []\<rparr>]"
  by (simp add: Parse_eval)

text \<open>
  C5, amended. Sentinel filtering runs first and detection after it, on what is left:
  when a git marker line was seen, every registered file has the null device or a
  \<^verbatim>\<open>b/\<close> path as its destination and every from-file line names the null device or an
  \<^verbatim>\<open>a/\<close> path, the result is the files with a real destination, each with its prefix
  stripped.
\<close>

theorem sentinel_filter_before_detection:
  assumes "Parse_loop (NewStream istr0) [] [] [] False = Inr (files, srcs, g, s)"
    and "g"
    and "list_all (\<lambda>file. path file = DevNull \<or> starts_with (path file) GitTargetPrefix) files"
    and "list_all (\<lambda>line. starts_with line (FromFilePrefix @ DevNull)
                        \<or> starts_with line (FromFilePrefix @ ''a/'')) srcs"
  shows "Parse istr0 = Inr (map strip_path (filter (\<lambda>file. path file \<noteq> DevNull) files))"
proof -
  from assms(3) have "list_all (\<lambda>file. starts_with (path file) GitTargetPrefix) (kept_files files)"
    by (auto simp: kept_files_def list_all_iff)
  moreover from assms(4)
  have "list_all (\<lambda>line. starts_with line (FromFilePrefix @ ''a/'')) (kept_lines srcs)"
    by (auto simp: kept_lines_def list_all_iff)
  ultimately have "IsGitDetected (kept_files files) (kept_lines srcs) g"
    using assms(2) by (simp add: IsGitDetected_def)
  with Parse_post [OF assms(1)] show ?thesis by (simp add: kept_files_def)
qed

theorem sentinel_filter_before_detection_witness:
  "Parse_loop (NewStream (wistream_of [''diff --git a/y b/y'', ''--- a/y'', ''+++ /dev/null'',
          ''diff --git a/x b/x'', ''--- /dev/null'', ''+++ b/x''] True)) [] [] [] False
     = Inr ([NewFile ''/dev/null'', NewFile ''b/x''], [''--- a/y'', ''--- /dev/null''], True,
            \<lparr>istr = \<lparr>pending = [], open_ended = False, eofbit = True\<rparr>,
             currentLine = 7, lastLineRead = []\<rparr>)
   \<and> Parse (wistream_of [''diff --git a/y b/y'', ''--- a/y'', ''+++ /dev/null'',
          ''diff --git a/x b/x'', ''--- /dev/null'', ''+++ b/x''] True)
     = Inr [NewFile ''x'']"
proof -
  let ?input = "wistream_of [''diff --git a/y b/y'', ''--- a/y'', ''+++ /dev/null'',
          ''diff --git a/x b/x'', ''--- /dev/null'', ''+++ b/x''] True"
  have a: "Parse_loop (NewStream ?input) [] [] [] False
     = Inr ([NewFile ''/dev/null'', NewFile ''b/x''], [''--- a/y'', ''--- /dev/null''], True,
            \<lparr>istr = \<lparr>pending = [], open_ended = False, eofbit = True\<rparr>,
             currentLine = 7, lastLineRead = []\<rparr>)"
    by (simp add: Parse_eval)
  have b: "list_all (\<lambda>file. path file = DevNull \<or> starts_with (path file) GitTargetPrefix)
             [NewFile ''/dev/null'', NewFile ''b/x'']"
    by (simp add: NewFile_def DevNull_def GitTargetPrefix_def starts_with_simps)
  have c: "list_all (\<lambda>line. starts_with line (FromFilePrefix @ DevNull)
                        \<or> starts_with line (FromFilePrefix @ ''a/'')) [''--- a/y'', ''--- /dev/null'']"
    by (simp add: DevNull_def FromFilePrefix_def starts_with_simps)
  from sentinel_filter_before_detection [OF a _ b c] a show ?thesis
    by (simp add: strip_path_def SetPath_def NewFile_def DevNull_def GitTargetPrefix_def)
qed

section \<open>File headers\<close>

lemma length_ToFilePrefix: "length ToFilePrefix = 4"
  by (simp add: ToFilePrefix_def)

lemma starts_with_append: "starts_with line p \<longleftrightarrow> (\<exists>r. line = p @ r)"
  by (metis append_eq_conv_conj append_take_drop_id starts_with_def)

lemma starts_with_from_file:
  "starts_with line FromFilePrefix \<Longrightarrow> \<not> starts_with line ''diff --git''"
  by (cases line) (simp_all add: starts_with_simps FromFilePrefix_def)

lemma ExtractTargetFile_to_file:
  assumes "starts_with nextLine ToFilePrefix"
  shows "ExtractTargetFile nextLine = Inr (takeWhile (\<lambda>c. c \<noteq> tab) (drop 4 nextLine))"
proof -
  from assms obtain r where r: "nextLine = ''+++ '' @ r"
    by (auto simp: starts_with_append ToFilePrefix_def)
  have tw: "takeWhile (\<lambda>c. c \<noteq> tab) nextLine = ''+++ '' @ takeWhile (\<lambda>c. c \<noteq> tab) r"
    by (simp add: r tab_def)
  have len: "length (takeWhile (\<lambda>c. c \<noteq> tab) nextLine) = 4 + length (takeWhile (\<lambda>c. c \<noteq> tab) r)"
    by (simp add: tw)
  have d: "drop 4 nextLine = r" by (simp add: r)
  have l4: "\<not> length nextLine < 4" by (simp add: r)
  show ?thesis
  proof (cases "tab \<in> set nextLine")
    case True
    have "take (length (takeWhile (\<lambda>c. c \<noteq> tab) r)) r = takeWhile (\<lambda>c. c \<noteq> tab) r"
      by (rule takeWhile_eq_take [symmetric])
    with True l4 len d show ?thesis
      by (simp add: ExtractTargetFile_def length_ToFilePrefix Let_def)
  next
    case False
    then have "tab \<notin> set r" by (simp add: r)
    then have "takeWhile (\<lambda>c. c \<noteq> tab) r = r"
      by (simp add: takeWhile_eq_all_conv) metis
    with False l4 d show ?thesis
      by (simp add: ExtractTargetFile_def length_ToFilePrefix Let_def del: takeWhile_eq_all_conv)
  qed
qed

lemma Parse_loop_from_file_eof:
  assumes "starts_with line FromFilePrefix" and "\<not> eofbit (istr s)"
    and "pending (istr s) = [line]"
  shows "Parse_loop s v files srcs g
           = Inl (UnifiedDiffParserException (currentLine s + 2) [] ErrorCannotReadLine)"
proof -
  let ?s1 = "next_line s"
  have p: "pending (istr ?s1) = []" "currentLine ?s1 = currentLine s + 1"
    using assms(3) by (simp_all add: next_line_fields)
  have "\<exists>t. GetLine ?s1 [] = (False, [], t) \<and> currentLine t = currentLine s + 2
      \<and> lastLineRead t = []"
    using p by (cases "eofbit (istr ?s1)") (simp_all add: GetLine_eof GetLine_end)
  then obtain t where "GetLine ?s1 [] = (False, [], t)" "currentLine t = currentLine s + 2"
    "lastLineRead t = []" by blast
  then show ?thesis
    using assms(1) starts_with_from_file [OF assms(1)]
    by (simp add: Parse_loop.simps [of s] GetLine_line [OF assms(2,3)] ThrowError_def)
qed

lemma Parse_loop_from_file_bad:
  assumes "starts_with line FromFilePrefix" and "\<not> starts_with nextLine ToFilePrefix"
    and "\<not> eofbit (istr s)" and "pending (istr s) = line # nextLine # rest"
  shows "Parse_loop s v files srcs g
           = Inl (UnifiedDiffParserException (currentLine s + 2) nextLine ErrorExpectFromFilePrefix)"
proof -
  let ?s1 = "next_line s"
  have p: "pending (istr ?s1) = nextLine # rest" "\<not> eofbit (istr ?s1)"
    using assms(4) by (simp_all add: next_line_fields)
  have g: "GetLine ?s1 [] = (True, nextLine, next_line (next_line s))"
    using GetLine_line [OF p(2,1)] by simp
  have "currentLine (next_line (next_line s)) = currentLine s + 2"
    "lastLineRead (next_line (next_line s)) = nextLine"
    using assms(4) by (simp_all add: next_line_fields)
  then show ?thesis
    using assms(1,2) starts_with_from_file [OF assms(1)]
    by (simp add: Parse_loop.simps [of s] GetLine_line [OF assms(3,4)] g ThrowError_def)
qed

lemma Parse_loop_from_file_ok:
  assumes "starts_with line FromFilePrefix" and "starts_with nextLine ToFilePrefix"
    and "\<not> eofbit (istr s)" and "pending (istr s) = line # nextLine # rest"
  shows "Parse_loop s v files srcs g
           = Parse_loop (next_line (next_line s)) line
               (files @ [NewFile (takeWhile (\<lambda>c. c \<noteq> tab) (drop 4 nextLine))])
               (srcs @ [line]) g"
proof -
  let ?s1 = "next_line s"
  have p: "pending (istr ?s1) = nextLine # rest" "\<not> eofbit (istr ?s1)"
    using assms(4) by (simp_all add: next_line_fields)
  have g: "GetLine ?s1 [] = (True, nextLine, next_line (next_line s))"
    using GetLine_line [OF p(2,1)] by simp
  show ?thesis
    using assms(1,2) starts_with_from_file [OF assms(1)] ExtractTargetFile_to_file [OF assms(2)]
    by (simp add: Parse_loop.simps [of s] GetLine_line [OF assms(3,4)] g)
qed

text \<open>
  C6, as stated, speaks of every line of the input that begins with the from-file marker.
  A removed line whose text begins with two dashes and a space reads \<^verbatim>\<open>--- ...\<close> in the
  diff; inside a hunk it is consumed as content and starts no file section, whatever
  follows it.
\<close>

theorem from_file_line_in_hunk_counterexample:
  "Parse (wistream_of [''--- a'', ''+++ f'', ''@@ -1,2 +1 @@'', ''--- removed'', '' context'']
            True)
     = Inr [\<lparr>path = ''f'', selectedLines = []\<rparr>]"
  by (simp add: Parse_eval)

text \<open>
  C6, amended. When the main loop reads a line that begins with the from-file marker:
  with no line after it the parse fails with \<open>ErrorCannotReadLine\<close>; with a next line that
  lacks the to-file marker it fails with \<open>ErrorExpectFromFilePrefix\<close>, reported at that next
  line; otherwise a file is appended to the files registered so far, its path the text
  of the next line after the marker, cut at the first tab if there is one, the from-file
  line is recorded, and the loop goes on after the two lines.
\<close>

theorem from_file_line:
  assumes "starts_with line FromFilePrefix" and "\<not> eofbit (istr s)"
  shows "(pending (istr s) = [line] \<longrightarrow>
            Parse_loop s v files srcs g
              = Inl (UnifiedDiffParserException (currentLine s + 2) [] ErrorCannotReadLine))
       \<and> (pending (istr s) = line # nextLine # rest \<longrightarrow> \<not> starts_with nextLine ToFilePrefix \<longrightarrow>
            Parse_loop s v files srcs g
              = Inl (UnifiedDiffParserException (currentLine s + 2) nextLine
                       ErrorExpectFromFilePrefix))
       \<and> (pending (istr s) = line # nextLine # rest \<longrightarrow> starts_with nextLine ToFilePrefix \<longrightarrow>
            Parse_loop s v files srcs g
              = Parse_loop (next_line (next_line s)) line
                  (files @ [\<lparr>path = takeWhile (\<lambda>c. c \<noteq> tab) (drop (length ToFilePrefix) nextLine),
                              selectedLines = []\<rparr>])
                  (srcs @ [line]) g)"
  using assms
  by (simp add: Parse_loop_from_file_eof Parse_loop_from_file_bad Parse_loop_from_file_ok
        NewFile_def length_ToFilePrefix)

theorem from_file_line_witness:
  "starts_with ''--- a/old.txt'' FromFilePrefix
   \<and> Parse (wistream_of [''--- a/old.txt''] True)
       = Inl (UnifiedDiffParserException 2 [] ErrorCannotReadLine)
   \<and> \<not> starts_with ''new.txt'' ToFilePrefix
   \<and> Parse (wistream_of [''--- a/old.txt'', ''new.txt''] True)
       = Inl (UnifiedDiffParserException 2 ''new.txt'' ErrorExpectFromFilePrefix)
   \<and> starts_with (''+++ new.txt'' @ [tab] @ ''2020-01-01'') ToFilePrefix
   \<and> Parse (wistream_of [''--- a/old.txt'', ''+++ new.txt'' @ [tab] @ ''2020-01-01''] True)
       = Inr [\<lparr>path = ''new.txt'', selectedLines = []\<rparr>]"
proof -
  let ?from = "''--- a/old.txt''" and ?to = "''+++ new.txt'' @ [tab] @ ''2020-01-01''"
  have a: "starts_with ?from FromFilePrefix"
    by (simp add: starts_with_simps FromFilePrefix_def)
  have b: "\<not> starts_with ''new.txt'' ToFilePrefix"
    by (simp add: starts_with_simps ToFilePrefix_def)
  have c: "starts_with ?to ToFilePrefix"
    by (simp add: starts_with_simps ToFilePrefix_def)
  have n: "\<not> eofbit (istr (NewStream (wistream_of ls True)))" for ls
    by (simp add: NewStream_def wistream_of_def)
  have p: "pending (istr (NewStream (wistream_of ls True))) = ls" for ls
    by (simp add: NewStream_def wistream_of_def)
  have 1: "Parse (wistream_of [?from] True)
       = Inl (UnifiedDiffParserException 2 [] ErrorCannotReadLine)"
    using from_file_line [OF a n, of "[?from]" "[]" "[]" "[]" False] p [of "[?from]"]
    by (simp add: Parse_def) (simp add: NewStream_def)
  have 2: "Parse (wistream_of [?from, ''new.txt''] True)
       = Inl (UnifiedDiffParserException 2 ''new.txt'' ErrorExpectFromFilePrefix)"
    using from_file_line [OF a n, of "[?from, ''new.txt'']" _ _ _ _ "''new.txt''" "[]"] b
      p [of "[?from, ''new.txt'']"]
    by (simp add: Parse_def) (simp add: NewStream_def)
  have 3: "Parse (wistream_of [?from, ?to] True) = Inr [\<lparr>path = ''new.txt'', selectedLines = []\<rparr>]"
    using from_file_line [OF a n, of "[?from, ?to]" "[]" "[]" "[]" False ?to "[]"] c
      p [of "[?from, ?to]"]
    by (simp add: Parse_def) (simp add: Parse_eval)
  from a b c 1 2 3 show ?thesis by blast
qed

section \<open>Hunk headers\<close>




















section \<open>Diagnostics\<close>















section \<open>Pure-deletion hunks\<close>






section \<open>Export to a path\<close>

lemma mkdirs_keeps: "fs q \<noteq> None \<Longrightarrow> mkdirs pre cs fs q = fs q"
  by (induction cs arbitrary: pre fs) auto

lemma mkdirs_unreached:
  "\<not> (\<exists>r. r \<noteq> [] \<and> q = pre @ r \<and> r = take (length r) cs) \<Longrightarrow>
   mkdirs pre cs fs q = fs q"
proof (induction cs arbitrary: pre fs)
  case Nil
  then show ?case by simp
next
  case (Cons c cs)
  have "\<not> (\<exists>r. r \<noteq> [] \<and> q = (pre @ [c]) @ r \<and> r = take (length r) cs)"
  proof
    assume "\<exists>r. r \<noteq> [] \<and> q = (pre @ [c]) @ r \<and> r = take (length r) cs"
    then obtain r where r: "r \<noteq> []" "q = (pre @ [c]) @ r" "r = take (length r) cs" by blast
    then have "c # r \<noteq> [] \<and> q = pre @ (c # r) \<and> c # r = take (length (c # r)) (c # cs)"
      by simp
    with Cons.prems show False by blast
  qed
  then have "mkdirs (pre @ [c]) cs fs' q = fs' q" for fs'
    by (rule Cons.IH)
  moreover have "q \<noteq> pre @ [c]"
  proof
    assume "q = pre @ [c]"
    then have "[c] \<noteq> [] \<and> q = pre @ [c] \<and> [c] = take (length [c]) (c # cs)" by simp
    with Cons.prems show False by blast
  qed
  ultimately show ?case by simp
qed

lemma mkdirs_makes:
  "r \<noteq> [] \<Longrightarrow> r = take (length r) cs \<Longrightarrow> fs (pre @ r) = None \<Longrightarrow>
   mkdirs pre cs fs (pre @ r) = Some Directory"
proof (induction cs arbitrary: pre fs r)
  case Nil
  then show ?case by simp
next
  case (Cons c cs)
  from Cons.prems(1,2) obtain r' where r: "r = c # r'" "r' = take (length r') cs"
    by (cases r) auto
  let ?fs = "if fs (pre @ [c]) = None then fs(pre @ [c] \<mapsto> Directory) else fs"
  show ?case
  proof (cases "r' = []")
    case True
    with r Cons.prems(3) have "?fs (pre @ r) = Some Directory" by simp
    then have "mkdirs (pre @ [c]) cs ?fs (pre @ r) = Some Directory"
      by (simp add: mkdirs_keeps)
    then show ?thesis by simp
  next
    case False
    have "?fs ((pre @ [c]) @ r') = None"
      using Cons.prems(3) r False by auto
    have "mkdirs (pre @ [c]) cs ?fs ((pre @ [c]) @ r') = Some Directory"
      using False r(2) \<open>?fs ((pre @ [c]) @ r') = None\<close> by (rule Cons.IH)
    then show ?thesis using r by simp
  qed
qed

lemma create_directories_parent:
  assumes "fs p = None \<or> fs p = Some Directory"
  shows "is_directory (create_directories p fs) p"
proof (cases "p = []")
  case True
  then show ?thesis by (simp add: is_directory_def)
next
  case False
  show ?thesis
  proof (cases "fs p")
    case None
    from mkdirs_makes [of p p fs "[]"] False None show ?thesis
      by (simp add: is_directory_def create_directories_def)
  next
    case (Some n)
    with assms show ?thesis
      by (simp add: is_directory_def create_directories_def mkdirs_keeps)
  qed
qed

text \<open>
  C9. In the model of the path form of \<^verbatim>\<open>Export\<close>: every missing directory on the way to
  the parent of the destination exists afterwards, and the destination is opened in the
  file system so extended; a destination that resolves to an existing directory, or that
  cannot be opened, gives \<open>InvalidOutputFileException\<close> naming the path; a destination that
  does not exist under a missing parent is written; an existing regular file is
  overwritten with the document.
\<close>

theorem Export_path_outcomes:
  "(q \<noteq> [] \<longrightarrow> q = take (length q) (parent_path output) \<longrightarrow> fs q = None \<longrightarrow>
      snd (Export_path document coverageData output fs) q = Some Directory)
   \<and> (is_directory fs (resolve output) \<longrightarrow>
      fst (Export_path document coverageData output fs) = Inl (InvalidOutputFileException output))
   \<and> (\<not> can_open (create_directories (parent_path output) fs) output \<longrightarrow>
      fst (Export_path document coverageData output fs) = Inl (InvalidOutputFileException output))
   \<and> (output \<noteq> [] \<longrightarrow> fs output = None \<longrightarrow> resolve output = output \<longrightarrow>
      fs (parent_path output) = None \<longrightarrow>
      fst (Export_path document coverageData output fs) = Inr ()
      \<and> snd (Export_path document coverageData output fs) output
          = Some (RegularFile (document coverageData)))
   \<and> (output \<noteq> [] \<longrightarrow> fs output = Some (RegularFile old) \<longrightarrow> resolve output = output \<longrightarrow>
      is_directory fs (parent_path output) \<longrightarrow>
      fst (Export_path document coverageData output fs) = Inr ()
      \<and> snd (Export_path document coverageData output fs) output
          = Some (RegularFile (document coverageData)))"
proof (intro conjI impI)
  let ?fs' = "create_directories (parent_path output) fs"
  {
    assume q: "q \<noteq> []" "q = take (length q) (parent_path output)" "fs q = None"
    have neq: "q \<noteq> output"
    proof
      assume eq: "q = output"
      from arg_cong [OF q(2), of length]
      have "length q \<le> length (parent_path output)" by simp
      then have "length q \<le> length output - 1" by (simp add: parent_path_def)
      moreover have "length q = length output" by (simp only: eq)
      ultimately have "length q = 0" by linarith
      with q(1) show False by simp
    qed
    from mkdirs_makes [of q "parent_path output" fs "[]"] q
    have "?fs' q = Some Directory" by (simp add: create_directories_def)
    with neq show "snd (Export_path document coverageData output fs) q = Some Directory"
      by (simp add: Export_path_def Let_def)
  }
  {
    assume d: "is_directory fs (resolve output)"
    have "\<not> can_open ?fs' output"
    proof (cases "resolve output = output \<and> output \<noteq> []")
      case True
      with d have "fs output = Some Directory" by (simp add: is_directory_def)
      then have "?fs' output = Some Directory"
        by (simp add: create_directories_def mkdirs_keeps)
      then show ?thesis by (simp add: can_open_def is_directory_def)
    next
      case False
      then show ?thesis by (auto simp: can_open_def)
    qed
    then show "fst (Export_path document coverageData output fs)
        = Inl (InvalidOutputFileException output)"
      by (simp add: Export_path_def Let_def)
  }
  {
    assume "\<not> can_open ?fs' output"
    then show "fst (Export_path document coverageData output fs)
        = Inl (InvalidOutputFileException output)"
      by (simp add: Export_path_def Let_def)
  }
  {
    assume ne0: "output \<noteq> []" and f: "fs output = None"
      and r: "resolve output = output" and p: "fs (parent_path output) = None"
    have "\<not> (\<exists>r. r \<noteq> [] \<and> output = [] @ r \<and> r = take (length r) (parent_path output))"
    proof
      assume "\<exists>r. r \<noteq> [] \<and> output = [] @ r \<and> r = take (length r) (parent_path output)"
      then have "output = take (length output) (parent_path output)" by auto
      from arg_cong [OF this, of length]
      have "length output \<le> length output - 1" by (simp add: parent_path_def)
      then have "length output = 0" by linarith
      with ne0 show False by simp
    qed
    then have "?fs' output = fs output"
      unfolding create_directories_def by (rule mkdirs_unreached)
    with f have n: "?fs' output = None" by simp
    from p have "is_directory ?fs' (parent_path output)"
      using create_directories_parent [of fs "parent_path output"] by simp
    with n ne0 r have "can_open ?fs' output"
      by (simp add: can_open_def is_directory_def)
    then show "fst (Export_path document coverageData output fs) = Inr ()"
      and "snd (Export_path document coverageData output fs) output
          = Some (RegularFile (document coverageData))"
      by (simp_all add: Export_path_def Let_def)
  }
  {
    assume ne0: "output \<noteq> []" and f: "fs output = Some (RegularFile old)"
      and r: "resolve output = output" and p: "is_directory fs (parent_path output)"
    from f have "?fs' output = fs output"
      unfolding create_directories_def by (intro mkdirs_keeps) simp
    with f ne0 have ne: "output \<noteq> []" "?fs' output = Some (RegularFile old)"
      by simp_all
    from p have "fs (parent_path output) = None \<or> fs (parent_path output) = Some Directory
        \<or> parent_path output = []"
      by (auto simp: is_directory_def)
    then have "is_directory ?fs' (parent_path output)"
      using create_directories_parent [of fs "parent_path output"]
      by (auto simp: is_directory_def)
    with ne r have "can_open ?fs' output"
      by (simp add: can_open_def is_directory_def)
    then show "fst (Export_path document coverageData output fs) = Inr ()"
      and "snd (Export_path document coverageData output fs) output
          = Some (RegularFile (document coverageData))"
      by (simp_all add: Export_path_def Let_def)
  }
qed

theorem Export_path_outcomes_witness:
  "(Map.empty([''tmp''] \<mapsto> Directory)) [''tmp'', ''SubFolder''] = None
   \<and> snd (Export_path (\<lambda>u. ''<coverage/>'') () [''tmp'', ''SubFolder'', ''output.xml'']
          (Map.empty([''tmp''] \<mapsto> Directory))) [''tmp'', ''SubFolder''] = Some Directory
   \<and> fst (Export_path (\<lambda>u. ''<coverage/>'') () [''tmp'', ''SubFolder'', ''output.xml'']
          (Map.empty([''tmp''] \<mapsto> Directory))) = Inr ()
   \<and> is_directory (Map.empty([''tmp''] \<mapsto> Directory)) (resolve [''tmp'', []])
   \<and> fst (Export_path (\<lambda>u. ''<coverage/>'') () [''tmp'', []]
          (Map.empty([''tmp''] \<mapsto> Directory)))
       = Inl (InvalidOutputFileException [''tmp'', []])
   \<and> fst (Export_path (\<lambda>u. ''<coverage/>'') () [''out.xml'']
          (Map.empty([''out.xml''] \<mapsto> RegularFile ''old''))) = Inr ()
   \<and> snd (Export_path (\<lambda>u. ''<coverage/>'') () [''out.xml'']
          (Map.empty([''out.xml''] \<mapsto> RegularFile ''old''))) [''out.xml'']
       = Some (RegularFile ''<coverage/>'')"
proof -
  let ?doc = "\<lambda>u :: unit. ''<coverage/>''"
  let ?fs = "Map.empty([''tmp''] \<mapsto> Directory)"
  let ?fs2 = "Map.empty([''out.xml''] \<mapsto> RegularFile ''old'')"
  let ?sub = "[''tmp'', ''SubFolder'', ''output.xml'']"
  have a: "[''tmp'', ''SubFolder''] \<noteq> []"
    "[''tmp'', ''SubFolder''] = take (length [''tmp'', ''SubFolder'']) (parent_path ?sub)"
    "?fs [''tmp'', ''SubFolder''] = None"
    by (simp_all add: parent_path_def)
  have a': "?sub \<noteq> []" "?fs ?sub = None" "resolve ?sub = ?sub" "?fs (parent_path ?sub) = None"
    by (simp_all add: parent_path_def resolve_def)
  have b: "is_directory ?fs (resolve [''tmp'', []])"
    by (simp add: is_directory_def resolve_def)
  have c: "[''out.xml''] \<noteq> []" "?fs2 [''out.xml''] = Some (RegularFile ''old'')"
    "resolve [''out.xml''] = [''out.xml'']" "is_directory ?fs2 (parent_path [''out.xml''])"
    by (simp_all add: resolve_def is_directory_def parent_path_def)
  from Export_path_outcomes [of "[''tmp'', ''SubFolder'']" ?sub ?fs ?doc "()"] a a'
  have 1: "snd (Export_path ?doc () ?sub ?fs) [''tmp'', ''SubFolder''] = Some Directory"
    "fst (Export_path ?doc () ?sub ?fs) = Inr ()"
    by blast+
  from Export_path_outcomes [of _ "[''tmp'', []]" ?fs ?doc "()"] b
  have 2: "fst (Export_path ?doc () [''tmp'', []] ?fs) = Inl (InvalidOutputFileException [''tmp'', []])"
    by blast
  from Export_path_outcomes [of _ "[''out.xml'']" ?fs2 ?doc "()" "''old''"] c
  have 3: "fst (Export_path ?doc () [''out.xml''] ?fs2) = Inr ()"
    "snd (Export_path ?doc () [''out.xml''] ?fs2) [''out.xml''] = Some (RegularFile ''<coverage/>'')"
    by blast+
  from a(3) b 1 2 3 show ?thesis by blast
qed

end
